theory Spec2Isabelle
  imports Complex_Main "HOL-Library.Sublist"
begin

section \<open>GenLock: gesture and voice triggered workstation lock\<close>

text \<open>
  A shallow embedding of \<^verbatim>\<open>genlock.py\<close> (gesture stabilizer, voice matcher, lock
  controller) and of the single-instance and control-socket block at the end of
  \<^verbatim>\<open>genlock_app.py\<close>. Mutable globals and locals become record fields that are passed
  and returned, Python exceptions become explicit result values, and everything the
  program does to the outside world (printing, speaking, sleeping, calling the platform
  lock, socket replies) is recorded as a list of effects in program order.
\<close>

subsection \<open>Configuration\<close>

definition LOCK_HOLD_SECONDS :: real where
  "LOCK_HOLD_SECONDS = 9 / 10"

definition GESTURE_FRAME_WINDOW :: nat where
  "GESTURE_FRAME_WINDOW = 10"


definition CONFIRM_COUNTDOWN :: nat where
  "CONFIRM_COUNTDOWN = 3"

definition DEBOUNCE_SECONDS :: real where
  "DEBOUNCE_SECONDS = 3"

subsection \<open>The float constant \<^verbatim>\<open>GESTURE_FRAME_WINDOW * 0.7\<close>\<close>

text \<open>
  Python evaluates \<^verbatim>\<open>GESTURE_FRAME_WINDOW * 0.7\<close> in IEEE-754 binary64: the literal
  \<^verbatim>\<open>0.7\<close> is the double nearest to seven tenths, the integer is converted exactly, and
  the product is rounded to nearest with ties to even. A positive double is kept here
  as an integer mantissa and a binary exponent; its value is \<open>mant * 2 ^ expo\<close>.
\<close>

record double =
  mant :: int
  expo :: int

definition pow2 :: "int \<Rightarrow> real" where
  "pow2 e = (if 0 \<le> e then 2 ^ nat e else 1 / 2 ^ nat (- e))"

definition double_val :: "double \<Rightarrow> real" where
  "double_val x = of_int (mant x) * pow2 (expo x)"

definition normal :: "double \<Rightarrow> bool" where
  "normal x = (2 ^ 52 \<le> mant x \<and> mant x < 2 ^ 53)"

definition round_half_even :: "int \<Rightarrow> int \<Rightarrow> int" where
  "round_half_even n d =
     (let q = n div d; r = n mod d
      in if 2 * r < d then q
         else if d < 2 * r then q + 1
         else if even q then q else q + 1)"

definition literal_0_7 :: double where
  \<comment> \<open>\<^verbatim>\<open>0.7\<close> lies in \<open>[1/2, 1)\<close>, where doubles are the multiples of \<open>2 ^ -53\<close>.\<close>
  "literal_0_7 = \<lparr>mant = round_half_even (7 * 2 ^ 53) 10, expo = - 53\<rparr>"

definition float_of_window :: "nat \<Rightarrow> double" where
  \<comment> \<open>\<^verbatim>\<open>int\<close> to \<^verbatim>\<open>float\<close> for the window size; exact, normalised for \<open>8 \<le> w < 16\<close>.\<close>
  "float_of_window w = \<lparr>mant = int w * 2 ^ 49, expo = - 49\<rparr>"

definition float_mul :: "double \<Rightarrow> double \<Rightarrow> double" where
  \<comment> \<open>Product of two positive normal doubles, rounded to nearest, ties to even.\<close>
  "float_mul x y =
     (let p = mant x * mant y;
          s = (if p < 2 ^ 105 then 52 else 53)
      in \<lparr>mant = round_half_even p (2 ^ s), expo = expo x + expo y + int s\<rparr>)"

definition stable_threshold :: real where
  "stable_threshold = double_val (float_mul (float_of_window GESTURE_FRAME_WINDOW) literal_0_7)"

subsection \<open>Gesture stabilizer: the smoothing and hold-time part of the camera loop\<close>

text \<open>
  The three locals of \<^verbatim>\<open>main\<close> that survive from frame to frame, and one pass through
  lines 199 to 220 of \<^verbatim>\<open>genlock.py\<close>. A frame is the classifier's boolean together
  with the reading \<^verbatim>\<open>time.time()\<close> would return in that pass (the pass reads the clock
  at most once). Clock readings are taken as real numbers and the hold test as exact
  real arithmetic. \<^verbatim>\<open>time.time() - gesture_start_time\<close> raises \<^verbatim>\<open>TypeError\<close> when the
  start time is \<^verbatim>\<open>None\<close>; that is the result \<open>None\<close> of \<open>observe\<close>.
\<close>

record stabilizer =
  frame_history :: "bool list"
  gesture_start_time :: "real option"
  last_gesture_state :: bool

definition stabilizer_init :: stabilizer where
  "stabilizer_init =
     \<lparr>frame_history = [], gesture_start_time = None, last_gesture_state = False\<rparr>"

definition push_frame :: "bool list \<Rightarrow> bool \<Rightarrow> bool list" where
  \<comment> \<open>\<^verbatim>\<open>append\<close>, then \<^verbatim>\<open>pop(0)\<close> when the list is longer than the window.\<close>
  "push_frame h g =
     (let h1 = h @ [g]
      in if length h1 > GESTURE_FRAME_WINDOW then tl h1 else h1)"

definition votes :: "bool list \<Rightarrow> nat" where
  \<comment> \<open>\<^verbatim>\<open>sum(frame_history)\<close>: \<^verbatim>\<open>True\<close> counts one, \<^verbatim>\<open>False\<close> zero.\<close>
  "votes h = sum_list (map (\<lambda>b. if b then 1 else 0) h)"

definition stable :: "bool list \<Rightarrow> bool" where
  "stable h = (stable_threshold \<le> real (votes h))"

text \<open>The result of one pass: the new locals, whether \<^verbatim>\<open>("gesture", "fist")\<close> was put on
  the action queue, and the verdict \<^verbatim>\<open>stable\<close> of that pass.\<close>

record frame_result =
  next_state :: stabilizer
  emitted :: bool
  verdict :: bool

definition observe :: "stabilizer \<Rightarrow> bool \<times> real \<Rightarrow> frame_result option" where
  "observe s f =
     (let h = push_frame (frame_history s) (fst f);
          st = stable h;
          now = snd f
      in if st \<and> \<not> last_gesture_state s then
           Some \<lparr>next_state = \<lparr>frame_history = h, gesture_start_time = Some now,
                               last_gesture_state = True\<rparr>,
                 emitted = False, verdict = st\<rparr>
         else if st \<and> last_gesture_state s then
           (case gesture_start_time s of
              None \<Rightarrow> None
            | Some t0 \<Rightarrow>
                if now - t0 \<ge> LOCK_HOLD_SECONDS then
                  Some \<lparr>next_state = \<lparr>frame_history = [], gesture_start_time = Some t0,
                                      last_gesture_state = False\<rparr>,
                        emitted = True, verdict = st\<rparr>
                else
                  Some \<lparr>next_state = s\<lparr>frame_history := h\<rparr>, emitted = False, verdict = st\<rparr>)
         else
           Some \<lparr>next_state = \<lparr>frame_history = h, gesture_start_time = None,
                               last_gesture_state = False\<rparr>,
                 emitted = False, verdict = st\<rparr>)"

text \<open>The loop over a finite run of frames: the states reached and the results of the
  passes, oldest first. An exception in a pass ends the run with \<open>None\<close>.\<close>

fun observe_all :: "stabilizer \<Rightarrow> (bool \<times> real) list \<Rightarrow> (stabilizer \<times> frame_result list) option" where
  "observe_all s [] = Some (s, [])"
| "observe_all s (f # fs) =
     (case observe s f of
        None \<Rightarrow> None
      | Some r \<Rightarrow>
          (case observe_all (next_state r) fs of
             None \<Rightarrow> None
           | Some (s', rs) \<Rightarrow> Some (s', r # rs)))"

subsection \<open>Text helpers\<close>

text \<open>
  A Python \<^verbatim>\<open>str\<close> is a sequence of Unicode code points: \<open>ustring\<close>. The string
  literals of the program are ASCII and are written as \<open>string\<close>; \<open>ustr\<close> is the
  \<^verbatim>\<open>str\<close> with the same characters. \<open>isspace\<close> is the set of code points that
  \<^verbatim>\<open>str.strip\<close> without argument removes (those for which \<^verbatim>\<open>str.isspace\<close> holds), \<open>strip\<close>
  is \<^verbatim>\<open>str.strip\<close> without argument, and \<open>contains p t\<close> is the Python test
  \<^verbatim>\<open>p in t\<close> on strings. \<open>str_nat\<close> is the decimal text an f-string gives a
  non-negative \<^verbatim>\<open>int\<close>.
\<close>

type_synonym ustring = "int list"

definition ustr :: "string \<Rightarrow> ustring" where
  "ustr s = map of_char s"

definition isspace :: "int \<Rightarrow> bool" where
  "isspace c \<longleftrightarrow>
     (0x09 \<le> c \<and> c \<le> 0x0D) \<or> (0x1C \<le> c \<and> c \<le> 0x20) \<or> c = 0x85 \<or> c = 0xA0 \<or>
     c = 0x1680 \<or> (0x2000 \<le> c \<and> c \<le> 0x200A) \<or> c = 0x2028 \<or> c = 0x2029 \<or>
     c = 0x202F \<or> c = 0x205F \<or> c = 0x3000"

definition strip :: "ustring \<Rightarrow> ustring" where
  "strip t = rev (dropWhile isspace (rev (dropWhile isspace t)))"


text \<open>
  \<^verbatim>\<open>str.lower\<close> belongs to the interpreter: what it does to a code point is read from
  the Unicode tables the interpreter was built with, which differ between versions and
  are no part of this program. The functions below that call \<^verbatim>\<open>.lower()\<close> take it as
  their argument \<open>lower\<close>. What every version does to ASCII text is fixed: the letters
  \<^verbatim>\<open>A\<close> to \<^verbatim>\<open>Z\<close> become \<^verbatim>\<open>a\<close> to \<^verbatim>\<open>z\<close> and nothing else changes. \<open>ascii_lowering lower\<close>
  says that \<open>lower\<close> does this. \<open>lower_ascii\<close> is one such function, used where an
  example needs one: on ASCII text it is \<^verbatim>\<open>str.lower\<close>, and it leaves every code point
  outside ASCII where it is.
\<close>

definition is_ascii :: "ustring \<Rightarrow> bool" where
  "is_ascii t = list_all (\<lambda>c. 0 \<le> c \<and> c < 128) t"

definition ascii_lower_char :: "int \<Rightarrow> int" where
  "ascii_lower_char c = (if 65 \<le> c \<and> c \<le> 90 then c + 32 else c)"

definition lower_ascii :: "ustring \<Rightarrow> ustring" where
  "lower_ascii t = map ascii_lower_char t"

definition ascii_lowering :: "(ustring \<Rightarrow> ustring) \<Rightarrow> bool" where
  "ascii_lowering lower \<longleftrightarrow> (\<forall>t. is_ascii t \<longrightarrow> lower t = map ascii_lower_char t)"

fun str_nat :: "nat \<Rightarrow> string" where
  "str_nat n =
     (if n < 10 then [char_of (48 + n)]
      else str_nat (n div 10) @ [char_of (48 + n mod 10)])"

subsection \<open>Effects and the ways a piece of code can end\<close>

datatype effect =
    Print string
  | Print_str string ustring
  | Speak string
  | Sleep nat
  | Run string
  | Send string
  | Close
  | Start_thread string

text \<open>
  \<open>Print s\<close> is a \<^verbatim>\<open>print\<close> whose text comes from the literals of the program, and
  \<open>Print_str s t\<close> is \<^verbatim>\<open>print(s, t)\<close> for such a text \<open>s\<close> and a \<^verbatim>\<open>str\<close> \<open>t\<close> from outside.
  \<open>Send b\<close> is \<^verbatim>\<open>conn.send(b)\<close> for a bytes literal \<open>b\<close>. Printing is taken to succeed.
  \<open>Speak t\<close> is a call \<^verbatim>\<open>speak(t)\<close>, which catches every exception of the speech engine
  and always returns. \<open>Run c\<close> is a call of an external lock command (a subprocess, or
  the Windows API function). A printed line is recorded without the text of an
  exception object that the source appends to it.
\<close>

datatype completion =
    Returns
  | SystemExit int
  | OsExit int
  | Uncaught string

text \<open>
  \<open>Returns\<close>: the code ran to its end. \<open>SystemExit n\<close>: \<^verbatim>\<open>sys.exit(n)\<close> was raised and
  not caught. \<open>OsExit n\<close>: \<^verbatim>\<open>os._exit(n)\<close>. \<open>Uncaught e\<close>: another exception left the
  code. \<open>exit_status\<close> is the exit code of the interpreter when its main thread ends
  that way.
\<close>

fun exit_status :: "completion \<Rightarrow> int" where
  "exit_status Returns = 0"
| "exit_status (SystemExit n) = n"
| "exit_status (OsExit n) = n"
| "exit_status (Uncaught e) = 1"

datatype call_result = Succeeds | Raises

subsection \<open>Voice listener: what is done with one recognizer result\<close>


type_synonym action = "string \<times> ustring"



subsection \<open>Lock controller: \<^verbatim>\<open>lock_workstation\<close>\<close>

record lock_env =
  platform_system :: ustring
  LockWorkStation :: call_result
  loginctl :: call_result
  gnome_screensaver_command :: call_result
  xdg_screensaver :: call_result
  osascript :: call_result

text \<open>Lines 55 to 76: the platform dispatch inside its \<^verbatim>\<open>try\<close>; every exception of a
  lock command ends in the handler that prints \<^verbatim>\<open>Lock failed:\<close>.\<close>

definition platform_lock :: "(ustring \<Rightarrow> ustring) \<Rightarrow> lock_env \<Rightarrow> effect list" where
  "platform_lock lower env =
     (let plat = lower (platform_system env);
          failed = [Print ''Lock failed:'']
      in if plat = ustr ''windows'' then
           Run ''LockWorkStation'' # (if LockWorkStation env = Raises then failed else [])
         else if plat = ustr ''linux'' then
           Run ''loginctl'' #
             (if loginctl env = Raises then
                Run ''gnome-screensaver-command'' #
                  (if gnome_screensaver_command env = Raises then
                     Run ''xdg-screensaver'' #
                       (if xdg_screensaver env = Raises then failed else [])
                   else [])
              else [])
         else if plat = ustr ''darwin'' then
           Run ''/usr/bin/osascript'' # (if osascript env = Raises then failed else [])
         else [Print ''Unknown platform - cannot lock automatically.''])"

text \<open>Lines 50 to 53: \<^verbatim>\<open>for i in range(CONFIRM_COUNTDOWN, 0, -1)\<close>.\<close>

fun countdown :: "nat \<Rightarrow> effect list" where
  "countdown 0 = []"
| "countdown (Suc i) = Speak (''Locking in '' @ str_nat (Suc i)) # Sleep 1 # countdown i"

record lock_result =
  last_lock_time' :: real
  lock_effects :: "effect list"
  lock_completion :: completion

definition lock_workstation ::
  "(ustring \<Rightarrow> ustring) \<Rightarrow> lock_env \<Rightarrow> real \<Rightarrow> real \<Rightarrow> lock_result" where
  \<comment> \<open>arguments: \<^verbatim>\<open>str.lower\<close>, the environment, the global \<^verbatim>\<open>last_lock_time\<close>, the reading of \<^verbatim>\<open>time.time()\<close>\<close>
  "lock_workstation lower env last_lock_time now =
     (if now - last_lock_time < DEBOUNCE_SECONDS then
        \<lparr>last_lock_time' = last_lock_time,
         lock_effects = [Print ''Lock suppressed (debounce).''],
         lock_completion = Returns\<rparr>
      else
        \<lparr>last_lock_time' = now,
         lock_effects =
           (if CONFIRM_COUNTDOWN > 0 then countdown CONFIRM_COUNTDOWN else []) @
           platform_lock lower env @
           [Print ''System locked. Exiting program...'', Speak ''System locked. Exiting.''],
         lock_completion = SystemExit 0\<rparr>)"

subsection \<open>The camera loop of \<^verbatim>\<open>main\<close>\<close>

text \<open>
  One pass of the \<^verbatim>\<open>while True\<close> loop is driven by a \<open>tick\<close>: whether \<^verbatim>\<open>cap.read()\<close>
  delivered a frame, the classifier's verdict on it, the clock reading of the
  stabilizer, the actions the voice thread has put on the queue since the previous
  poll, the clock reading inside \<^verbatim>\<open>lock_workstation\<close>, and whether the key read at the
  end of the pass is \<^verbatim>\<open>q\<close>. The loop runs until it ends or the ticks are used up; in
  the second case the completion is \<open>None\<close>: the program is still running.
\<close>

record tick =
  ret :: bool
  gesture_detected :: bool
  frame_clock :: real
  voice_actions :: "action list"
  lock_clock :: real
  key_q :: bool

record main_state =
  stab :: stabilizer
  action_q :: "action list"
  last_lock_time :: real

definition main_init :: main_state where
  "main_init = \<lparr>stab = stabilizer_init, action_q = [], last_lock_time = 0\<rparr>"

record main_result =
  final_state :: main_state
  effects :: "effect list"
  completion :: "completion option"

fun main_loop ::
  "(ustring \<Rightarrow> ustring) \<Rightarrow> lock_env \<Rightarrow> main_state \<Rightarrow> tick list \<Rightarrow> main_result" where
  "main_loop lower env s [] = \<lparr>final_state = s, effects = [], completion = None\<rparr>"
| "main_loop lower env s (t # ts) =
     (if \<not> ret t then \<lparr>final_state = s, effects = [], completion = Some Returns\<rparr>
      else
        case observe (stab s) (gesture_detected t, frame_clock t) of
          None \<Rightarrow> \<lparr>final_state = s, effects = [], completion = Some (Uncaught ''TypeError'')\<rparr>
        | Some r \<Rightarrow>
            let q1 = action_q s @ voice_actions t @
                       (if emitted r then [(''gesture'', ustr ''fist'')] else []);
                e1 = (if emitted r then [Print ''Gesture trigger detected (fist).''] else [])
            in (case q1 of
                  [] \<Rightarrow>
                    let s1 = s\<lparr>stab := next_state r, action_q := []\<rparr>
                    in if key_q t then
                         \<lparr>final_state = s1, effects = e1, completion = Some Returns\<rparr>
                       else
                         let m = main_loop lower env s1 ts
                         in m\<lparr>effects := e1 @ effects m\<rparr>
                | (src, payload) # q2 \<Rightarrow>
                    let l = lock_workstation lower env (last_lock_time s) (lock_clock t);
                        s1 = \<lparr>stab = next_state r, action_q = q2,
                              last_lock_time = last_lock_time' l\<rparr>;
                        e2 = e1 @ [Print_str (''Action from: '' @ src) payload,
                                   Speak ''Lock command received''] @ lock_effects l
                    in if lock_completion l \<noteq> Returns then
                         \<lparr>final_state = s1, effects = e2,
                          completion = Some (lock_completion l)\<rparr>
                       else if key_q t then
                         \<lparr>final_state = s1, effects = e2, completion = Some Returns\<rparr>
                       else
                         let m = main_loop lower env s1 ts
                         in m\<lparr>effects := e2 @ effects m\<rparr>))"

text \<open>\<^verbatim>\<open>main\<close>: the camera check, the start of the voice thread, the loop, and the
  \<^verbatim>\<open>finally\<close> block, which prints \<^verbatim>\<open>Exiting...\<close> on every way out of the loop. The
  argument \<open>isOpened\<close> is the result of \<^verbatim>\<open>cap.isOpened()\<close>.\<close>

definition main ::
  "(ustring \<Rightarrow> ustring) \<Rightarrow> bool \<Rightarrow> lock_env \<Rightarrow> tick list \<Rightarrow> main_result" where
  "main lower isOpened env ts =
     (if \<not> isOpened then
        \<lparr>final_state = main_init, effects = [Print ''Cannot open camera''],
         completion = Some Returns\<rparr>
      else
        let m = main_loop lower env main_init ts;
            e = Start_thread ''voice_listener'' # effects m
        in if completion m = None then m\<lparr>effects := e\<rparr>
           else m\<lparr>effects := e @ [Print ''Exiting...'']\<rparr>)"

subsection \<open>Single instance and control socket (the block for the top of the core script)\<close>

text \<open>
  Lines 132 to 140 and 174 to 177 of \<^verbatim>\<open>genlock_app.py\<close>. The arguments are the outcomes
  of \<^verbatim>\<open>bind\<close> and \<^verbatim>\<open>listen\<close> on the singleton port (\<open>Raises\<close>: the call raised
  \<^verbatim>\<open>OSError\<close>). The socket is created with \<^verbatim>\<open>SO_REUSEADDR\<close> set (line 133); whether
  \<^verbatim>\<open>bind\<close> then raises while another process holds the port is decided by the operating
  system, not by this program, and so it is an input here. The completion is \<open>None\<close>
  when the script goes on after the block.
\<close>

definition singleton_startup :: "call_result \<Rightarrow> call_result \<Rightarrow> effect list \<times> completion option" where
  "singleton_startup bind_r listen_r =
     (if bind_r = Raises \<or> listen_r = Raises then
        ([Print ''Another GenLock instance is already running. Exiting.''],
         Some (SystemExit 0))
      else ([Start_thread ''_control_thread''], None))"

text \<open>
  One pass of the \<^verbatim>\<open>while True\<close> loop of \<^verbatim>\<open>_control_thread\<close>. \<open>received\<close> is the text
  \<^verbatim>\<open>conn.recv(1024).decode(errors='ignore')\<close>, or \<open>None\<close> when \<^verbatim>\<open>accept\<close> or \<^verbatim>\<open>recv\<close> raised; the other
  two fields are the outcomes of \<^verbatim>\<open>conn.send\<close> and \<^verbatim>\<open>conn.close\<close>. An exception in the
  pass is swallowed by \<^verbatim>\<open>except Exception: pass\<close> and the loop goes on. \<^verbatim>\<open>sys.exit(0)\<close>
  raises \<^verbatim>\<open>SystemExit\<close>, which the handler around it catches and answers with
  \<^verbatim>\<open>os._exit(0)\<close>. The completion is \<open>None\<close> when the loop goes on.
\<close>

record control_io =
  received :: "ustring option"
  send_r :: call_result
  close_r :: call_result

definition control_pass ::
  "(ustring \<Rightarrow> ustring) \<Rightarrow> control_io \<Rightarrow> effect list \<times> completion option" where
  "control_pass lower io =
     (case received io of
        None \<Rightarrow> ([], None)
      | Some raw \<Rightarrow>
          let data = lower (strip raw)
          in if data = ustr ''stop'' then
               (if send_r io = Raises then ([], None)
                else if close_r io = Raises then ([Send ''stopping''], None)
                else ([Send ''stopping'', Close, Print ''Stop command received, exiting.''],
                      Some (OsExit 0)))
             else
               (if send_r io = Raises then ([], None)
                else if close_r io = Raises then ([Send ''unknown''], None)
                else ([Send ''unknown'', Close], None)))"

subsection \<open>Vocabulary of the properties\<close>

text \<open>
  The smoothing rule in the words of the specification: the verdict is true when the
  number of true signals in the window is at least seven tenths of the window size,
  rounded up. It is compared below with \<open>stable\<close>, which follows the code.
\<close>

definition spec_threshold :: nat where
  "spec_threshold = nat \<lceil>(7 / 10) * real GESTURE_FRAME_WINDOW\<rceil>"

definition spec_stable :: "bool list \<Rightarrow> bool" where
  "spec_stable h = (spec_threshold \<le> votes h)"

text \<open>The last at most \<open>GESTURE_FRAME_WINDOW\<close> signals among the first \<open>i + 1\<close> frames of a run.\<close>

definition trailing :: "(bool \<times> real) list \<Rightarrow> nat \<Rightarrow> bool list" where
  "trailing fs i =
     (let seen = map fst (take (Suc i) fs)
      in drop (length seen - GESTURE_FRAME_WINDOW) seen)"

text \<open>\<open>held rs j k\<close>: the verdict was false on pass \<open>j - 1\<close> and true on every pass from
  \<open>j\<close> to \<open>k\<close>, with \<open>j\<close> before \<open>k\<close>.\<close>

definition held :: "frame_result list \<Rightarrow> nat \<Rightarrow> nat \<Rightarrow> bool" where
  "held rs j k = (0 < j \<and> j < k \<and> \<not> verdict (rs ! (j - 1)) \<and> (\<forall>i \<in> {j..k}. verdict (rs ! i)))"

text \<open>The results of the passes of a run that starts with the locals as \<^verbatim>\<open>main\<close> initialises
  them; empty if a pass raised.\<close>

definition run_results :: "(bool \<times> real) list \<Rightarrow> frame_result list" where
  "run_results fs = (case observe_all stabilizer_init fs of None \<Rightarrow> [] | Some (s, rs) \<Rightarrow> rs)"

text \<open>
  Invariants of a run of the stabilizer that starts with an empty window and no hold in
  progress; \<open>fs\<close> are the frames seen so far, \<open>s\<close> the locals after them and \<open>rs\<close> the
  results of the passes. \<open>window_inv\<close>: the window holds the most recent frames, at most
  \<open>GESTURE_FRAME_WINDOW\<close> of them, and a true verdict means enough true frames among the
  trailing ones. \<open>hold_inv\<close>: while a hold is in progress its start time is the clock
  reading of the pass at which the verdict became true, and the verdict has been true
  since; every event emitted so far came at the end of such a stretch.
\<close>

definition window_inv :: "(bool \<times> real) list \<Rightarrow> stabilizer \<Rightarrow> frame_result list \<Rightarrow> bool" where
  "window_inv fs s rs =
     (length rs = length fs \<and>
      suffix (frame_history s) (map fst fs) \<and>
      length (frame_history s) \<le> GESTURE_FRAME_WINDOW \<and>
      list_all (\<lambda>r. length (frame_history (next_state r)) \<le> GESTURE_FRAME_WINDOW) rs \<and>
      (\<forall>i < length fs. verdict (rs ! i) \<longrightarrow> spec_threshold \<le> votes (trailing fs i)))"

definition hold_inv :: "(bool \<times> real) list \<Rightarrow> stabilizer \<Rightarrow> frame_result list \<Rightarrow> bool" where
  "hold_inv fs s rs =
     ((last_gesture_state s \<longrightarrow>
         (\<exists>j. 0 < j \<and> j < length fs \<and> gesture_start_time s = Some (snd (fs ! j)) \<and>
              \<not> verdict (rs ! (j - 1)) \<and> (\<forall>i. j \<le> i \<and> i < length fs \<longrightarrow> verdict (rs ! i)))) \<and>
      (\<not> last_gesture_state s \<longrightarrow>
         frame_history s = [] \<or> (0 < length fs \<and> \<not> verdict (rs ! (length fs - 1)))) \<and>
      (\<forall>k < length fs. emitted (rs ! k) \<longrightarrow>
         (\<exists>j. held rs j k \<and> LOCK_HOLD_SECONDS \<le> snd (fs ! k) - snd (fs ! j))))"

section \<open>The threshold of the majority vote\<close>

lemma literal_0_7_mant: "mant literal_0_7 = 6305039478318694"
  by (simp add: literal_0_7_def round_half_even_def Let_def)

lemma literal_0_7_normal: "normal literal_0_7"
  by (simp add: normal_def literal_0_7_mant)

lemma literal_0_7_nearest: "\<bar>double_val literal_0_7 - 7 / 10\<bar> \<le> 1 / 2 ^ 54"
proof -
  have "expo literal_0_7 = - 53"
    by (simp add: literal_0_7_def)
  then show ?thesis
    by (simp add: double_val_def literal_0_7_mant pow2_def)
qed

lemma float_of_window_normal: "normal (float_of_window GESTURE_FRAME_WINDOW)"
  by (simp add: normal_def float_of_window_def GESTURE_FRAME_WINDOW_def)

lemma float_of_window_exact: "double_val (float_of_window GESTURE_FRAME_WINDOW) = 10"
  by (simp add: double_val_def float_of_window_def GESTURE_FRAME_WINDOW_def pow2_def)

lemma stable_threshold_eq: "stable_threshold = 7"
  by (simp add: stable_threshold_def float_mul_def float_of_window_def GESTURE_FRAME_WINDOW_def
      literal_0_7_mant literal_0_7_def round_half_even_def double_val_def pow2_def Let_def)

lemma stable_iff: "stable h \<longleftrightarrow> 7 \<le> votes h"
  by (simp add: stable_def stable_threshold_eq)

lemma spec_threshold_eq: "spec_threshold = 7"
  by (simp add: spec_threshold_def GESTURE_FRAME_WINDOW_def)

text \<open>
  C6. With the window size 10, the verdict the code computes with
  \<^verbatim>\<open>votes >= GESTURE_FRAME_WINDOW * 0.7\<close> is true exactly when the number of true signals
  in the window is at least seven tenths of the window size rounded up, which is 7: the
  code and the specification decide the same windows.
\<close>

theorem stable_agrees_with_spec:
  "stable h = spec_stable h \<and> spec_threshold = 7 \<and> GESTURE_FRAME_WINDOW = 10"
  by (simp add: stable_iff spec_stable_def spec_threshold_eq GESTURE_FRAME_WINDOW_def)


section \<open>The stability window\<close>

lemma votes_append: "votes (xs @ ys) = votes xs + votes ys"
  by (simp add: votes_def)

lemma votes_le_length: "votes h \<le> length h"
  by (induction h) (auto simp: votes_def)

lemma votes_suffix: "suffix w xs \<Longrightarrow> votes w \<le> votes xs"
  by (auto simp: suffix_def votes_append)

lemma push_frame_length: "length h \<le> GESTURE_FRAME_WINDOW \<Longrightarrow> length (push_frame h g) \<le> GESTURE_FRAME_WINDOW"
  by (auto simp: push_frame_def Let_def)

lemma push_frame_drop:
  "push_frame h g = drop (Suc (length h) - GESTURE_FRAME_WINDOW) (h @ [g])"
  if "length h \<le> GESTURE_FRAME_WINDOW"
proof (cases "length h < GESTURE_FRAME_WINDOW")
  case True
  then show ?thesis by (simp add: push_frame_def Let_def)
next
  case False
  with that have "length h = GESTURE_FRAME_WINDOW" by simp
  then have "Suc (length h) - GESTURE_FRAME_WINDOW = Suc 0" by simp
  moreover have "push_frame h g = tl (h @ [g])"
    using False by (simp add: push_frame_def Let_def)
  ultimately show ?thesis by (simp only: drop_Suc drop_0)
qed

lemma push_frame_suffix: "suffix (push_frame h g) (h @ [g])"
  by (cases h) (auto simp: push_frame_def Let_def suffix_def intro: exI[of _ "[hd h]"])

lemma push_frame_last: "last (push_frame h g) = g \<and> push_frame h g \<noteq> []"
  by (cases h) (auto simp: push_frame_def Let_def GESTURE_FRAME_WINDOW_def)

section \<open>Runs of the stabilizer\<close>

lemma observe_cases:
  assumes "observe s f = Some r"
  obtains
    (start) "stable (push_frame (frame_history s) (fst f))" "\<not> last_gesture_state s"
      "next_state r = \<lparr>frame_history = push_frame (frame_history s) (fst f),
                        gesture_start_time = Some (snd f), last_gesture_state = True\<rparr>"
      "\<not> emitted r" "verdict r"
  | (emit) t0 where "stable (push_frame (frame_history s) (fst f))" "last_gesture_state s"
      "gesture_start_time s = Some t0" "LOCK_HOLD_SECONDS \<le> snd f - t0"
      "next_state r = \<lparr>frame_history = [], gesture_start_time = Some t0,
                        last_gesture_state = False\<rparr>"
      "emitted r" "verdict r"
  | (hold) t0 where "stable (push_frame (frame_history s) (fst f))" "last_gesture_state s"
      "gesture_start_time s = Some t0" "\<not> LOCK_HOLD_SECONDS \<le> snd f - t0"
      "next_state r = s\<lparr>frame_history := push_frame (frame_history s) (fst f)\<rparr>"
      "\<not> emitted r" "verdict r"
  | (reset) "\<not> stable (push_frame (frame_history s) (fst f))"
      "next_state r = \<lparr>frame_history = push_frame (frame_history s) (fst f),
                        gesture_start_time = None, last_gesture_state = False\<rparr>"
      "\<not> emitted r" "\<not> verdict r"
  using assms
  by (auto simp: observe_def Let_def split: if_splits option.splits)

lemma observe_total:
  assumes "last_gesture_state s \<Longrightarrow> gesture_start_time s \<noteq> None"
  shows "\<exists>r. observe s f = Some r"
  using assms
  by (auto simp: observe_def Let_def split: option.splits)

lemma observe_verdict:
  "observe s f = Some r \<Longrightarrow> verdict r = stable (push_frame (frame_history s) (fst f))"
  by (erule observe_cases) simp_all

lemma observe_window:
  assumes "observe s f = Some r"
  shows "frame_history (next_state r) = push_frame (frame_history s) (fst f)
         \<or> frame_history (next_state r) = []"
  using assms by (rule observe_cases) simp_all

lemma observe_all_snoc:
  "observe_all s (fs @ [f]) =
     (case observe_all s fs of
        None \<Rightarrow> None
      | Some (s1, rs) \<Rightarrow>
          (case observe s1 f of
             None \<Rightarrow> None
           | Some r \<Rightarrow> Some (next_state r, rs @ [r])))"
  by (induction fs arbitrary: s) (auto split: option.splits)

lemma suffix_trailing:
  assumes "suffix w xs" and "length w \<le> n"
  shows "suffix w (drop (length xs - n) xs)"
proof -
  from assms(1) obtain p where xs: "xs = p @ w" by (auto simp: suffix_def)
  with assms(2) have "length xs - n \<le> length p" by simp
  then have "drop (length xs - n) xs = drop (length xs - n) p @ w"
    by (simp add: xs)
  then show ?thesis by (simp add: suffix_def)
qed

lemma trailing_snoc: "i < length fs \<Longrightarrow> trailing (fs @ [f]) i = trailing fs i"
  by (simp add: trailing_def)

lemma trailing_last: "trailing (fs @ [f]) (length fs) =
    drop (Suc (length fs) - GESTURE_FRAME_WINDOW) (map fst fs @ [fst f])"
  by (simp add: trailing_def Let_def)

lemma held_snoc: "k < length rs \<Longrightarrow> held (rs @ [r]) j k = held rs j k"
  by (auto simp: held_def nth_append)

lemma short_window_not_stable: "length h \<le> 1 \<Longrightarrow> \<not> stable h"
  using votes_le_length [of h] by (simp add: stable_iff)

lemma window_inv_step:
  assumes inv: "window_inv fs s rs" and obs: "observe s f = Some r"
  shows "window_inv (fs @ [f]) (next_state r) (rs @ [r])"
proof -
  let ?h = "push_frame (frame_history s) (fst f)"
  from inv have len: "length rs = length fs"
    and suf: "suffix (frame_history s) (map fst fs)"
    and cap: "length (frame_history s) \<le> GESTURE_FRAME_WINDOW"
    and olds: "list_all (\<lambda>r. length (frame_history (next_state r)) \<le> GESTURE_FRAME_WINDOW) rs"
    and old: "\<forall>i < length fs. verdict (rs ! i) \<longrightarrow> spec_threshold \<le> votes (trailing fs i)"
    by (simp_all add: window_inv_def)
  have hsuf: "suffix ?h (map fst fs @ [fst f])"
    using push_frame_suffix [of "frame_history s" "fst f"] suf
    by (meson suffix_order.trans suffix_append suffix_appendI same_suffix_suffix)
  have hcap: "length ?h \<le> GESTURE_FRAME_WINDOW"
    using cap by (rule push_frame_length)
  have htr: "suffix ?h (trailing (fs @ [f]) (length fs))"
    using suffix_trailing [OF hsuf hcap] by (simp add: trailing_last)
  have new: "verdict r \<longrightarrow> spec_threshold \<le> votes (trailing (fs @ [f]) (length fs))"
  proof
    assume "verdict r"
    with obs have "stable ?h" by (simp add: observe_verdict)
    then have "7 \<le> votes ?h" by (simp add: stable_iff)
    also have "\<dots> \<le> votes (trailing (fs @ [f]) (length fs))"
      using htr by (rule votes_suffix)
    finally show "spec_threshold \<le> votes (trailing (fs @ [f]) (length fs))"
      by (simp add: spec_threshold_eq)
  qed
  have w: "suffix (frame_history (next_state r)) (map fst (fs @ [f]))
           \<and> length (frame_history (next_state r)) \<le> GESTURE_FRAME_WINDOW"
    using observe_window [OF obs] hsuf hcap by auto
  have all: "\<forall>i < length (fs @ [f]). verdict ((rs @ [r]) ! i) \<longrightarrow>
               spec_threshold \<le> votes (trailing (fs @ [f]) i)"
  proof (intro allI impI)
    fix i assume i: "i < length (fs @ [f])" and v: "verdict ((rs @ [r]) ! i)"
    show "spec_threshold \<le> votes (trailing (fs @ [f]) i)"
    proof (cases "i < length fs")
      case True
      with v len have "verdict (rs ! i)" by (simp add: nth_append)
      with old True show ?thesis by (simp add: trailing_snoc)
    next
      case False
      with i have "i = length fs" by simp
      with v len new show ?thesis by (simp add: nth_append)
    qed
  qed
  show ?thesis
    unfolding window_inv_def using len w all olds by simp
qed

lemma emitted_step:
  assumes len: "length rs = length fs"
    and old: "\<forall>k < length fs. emitted (rs ! k) \<longrightarrow>
         (\<exists>j. held rs j k \<and> LOCK_HOLD_SECONDS \<le> snd (fs ! k) - snd (fs ! j))"
    and new: "emitted r \<Longrightarrow>
         \<exists>j. held (rs @ [r]) j (length fs) \<and> LOCK_HOLD_SECONDS \<le> snd f - snd ((fs @ [f]) ! j)"
  shows "\<forall>k < length (fs @ [f]). emitted ((rs @ [r]) ! k) \<longrightarrow>
         (\<exists>j. held (rs @ [r]) j k \<and>
              LOCK_HOLD_SECONDS \<le> snd ((fs @ [f]) ! k) - snd ((fs @ [f]) ! j))"
proof (intro allI impI)
  fix k assume k: "k < length (fs @ [f])" and e: "emitted ((rs @ [r]) ! k)"
  show "\<exists>j. held (rs @ [r]) j k \<and>
             LOCK_HOLD_SECONDS \<le> snd ((fs @ [f]) ! k) - snd ((fs @ [f]) ! j)"
  proof (cases "k < length fs")
    case True
    with e len have "emitted (rs ! k)" by (simp add: nth_append)
    with old True obtain j where j: "held rs j k"
      and t: "LOCK_HOLD_SECONDS \<le> snd (fs ! k) - snd (fs ! j)" by blast
    from j have "j < k" by (simp add: held_def)
    with True have "(fs @ [f]) ! j = fs ! j" "(fs @ [f]) ! k = fs ! k"
      by (simp_all add: nth_append)
    moreover from j True len have "held (rs @ [r]) j k" by (simp add: held_snoc)
    ultimately show ?thesis using t by auto
  next
    case False
    with k have kn: "k = length fs" by simp
    with e len have "emitted r" by (simp add: nth_append)
    from new [OF this] kn show ?thesis by (auto simp: nth_append)
  qed
qed

lemma hold_inv_step:
  assumes inv: "hold_inv fs s rs" and len: "length rs = length fs"
    and obs: "observe s f = Some r"
  shows "hold_inv (fs @ [f]) (next_state r) (rs @ [r])"
proof -
  let ?n = "length fs"
  from inv have
    i4: "last_gesture_state s \<Longrightarrow>
         \<exists>j. 0 < j \<and> j < ?n \<and> gesture_start_time s = Some (snd (fs ! j)) \<and>
              \<not> verdict (rs ! (j - 1)) \<and> (\<forall>i. j \<le> i \<and> i < ?n \<longrightarrow> verdict (rs ! i))"
    and i5: "\<not> last_gesture_state s \<Longrightarrow>
         frame_history s = [] \<or> (0 < ?n \<and> \<not> verdict (rs ! (?n - 1)))"
    and i6: "\<forall>k < ?n. emitted (rs ! k) \<longrightarrow>
         (\<exists>j. held rs j k \<and> LOCK_HOLD_SECONDS \<le> snd (fs ! k) - snd (fs ! j))"
    by (simp_all add: hold_inv_def)
  from obs show ?thesis
  proof (cases rule: observe_cases)
    case start
    have "frame_history s \<noteq> []"
    proof
      assume "frame_history s = []"
      then have "length (push_frame (frame_history s) (fst f)) \<le> 1"
        by (simp add: push_frame_def Let_def GESTURE_FRAME_WINDOW_def)
      with start(1) show False using short_window_not_stable by blast
    qed
    with i5 [OF start(2)] have pos: "0 < ?n" and prev: "\<not> verdict (rs ! (?n - 1))"
      by auto
    have a: "\<exists>j. 0 < j \<and> j < length (fs @ [f]) \<and>
            gesture_start_time (next_state r) = Some (snd ((fs @ [f]) ! j)) \<and>
            \<not> verdict ((rs @ [r]) ! (j - 1)) \<and>
            (\<forall>i. j \<le> i \<and> i < length (fs @ [f]) \<longrightarrow> verdict ((rs @ [r]) ! i))"
    proof (intro exI [of _ ?n] conjI allI impI)
      show "0 < ?n" by (rule pos)
      show "?n < length (fs @ [f])" by simp
      show "gesture_start_time (next_state r) = Some (snd ((fs @ [f]) ! ?n))"
        by (simp add: start(3))
      show "\<not> verdict ((rs @ [r]) ! (?n - 1))"
        using pos prev len by (simp add: nth_append)
      fix i assume "?n \<le> i \<and> i < length (fs @ [f])"
      then have "i = ?n" by simp
      then show "verdict ((rs @ [r]) ! i)" using len start(5) by (simp add: nth_append)
    qed
    have c: "\<forall>k < length (fs @ [f]). emitted ((rs @ [r]) ! k) \<longrightarrow>
         (\<exists>j. held (rs @ [r]) j k \<and>
              LOCK_HOLD_SECONDS \<le> snd ((fs @ [f]) ! k) - snd ((fs @ [f]) ! j))"
      using len i6 start(4) by (intro emitted_step) auto
    show ?thesis
      unfolding hold_inv_def using a c by (simp add: start(3))
  next
    case (emit t0)
    from i4 [OF emit(2)] obtain j where j: "0 < j" "j < ?n"
      and g: "gesture_start_time s = Some (snd (fs ! j))"
      and p: "\<not> verdict (rs ! (j - 1))"
      and v: "\<forall>i. j \<le> i \<and> i < ?n \<longrightarrow> verdict (rs ! i)"
      by blast
    from g emit(3) have t0: "t0 = snd (fs ! j)" by simp
    have h: "held (rs @ [r]) j ?n"
      unfolding held_def
    proof (intro conjI ballI)
      show "0 < j" "j < ?n" by (rule j)+
      show "\<not> verdict ((rs @ [r]) ! (j - 1))"
        using j p len by (simp add: nth_append less_imp_diff_less)
      fix i assume "i \<in> {j..?n}"
      then show "verdict ((rs @ [r]) ! i)"
        using v len emit(7) by (cases "i < ?n") (auto simp: nth_append)
    qed
    have "(fs @ [f]) ! j = fs ! j" using j by (simp add: nth_append)
    with h emit(4) t0
    have new: "\<exists>j. held (rs @ [r]) j ?n \<and>
           LOCK_HOLD_SECONDS \<le> snd f - snd ((fs @ [f]) ! j)"
      by auto
    have c: "\<forall>k < length (fs @ [f]). emitted ((rs @ [r]) ! k) \<longrightarrow>
         (\<exists>j. held (rs @ [r]) j k \<and>
              LOCK_HOLD_SECONDS \<le> snd ((fs @ [f]) ! k) - snd ((fs @ [f]) ! j))"
      using len i6 new by (intro emitted_step) auto
    show ?thesis
      unfolding hold_inv_def using c by (simp add: emit(5))
  next
    case (hold t0)
    from i4 [OF hold(2)] obtain j where j: "0 < j" "j < ?n"
      and g: "gesture_start_time s = Some (snd (fs ! j))"
      and p: "\<not> verdict (rs ! (j - 1))"
      and v: "\<forall>i. j \<le> i \<and> i < ?n \<longrightarrow> verdict (rs ! i)"
      by blast
    have a: "\<exists>j. 0 < j \<and> j < length (fs @ [f]) \<and>
            gesture_start_time (next_state r) = Some (snd ((fs @ [f]) ! j)) \<and>
            \<not> verdict ((rs @ [r]) ! (j - 1)) \<and>
            (\<forall>i. j \<le> i \<and> i < length (fs @ [f]) \<longrightarrow> verdict ((rs @ [r]) ! i))"
    proof (intro exI [of _ j] conjI allI impI)
      show "0 < j" by (rule j)
      show "j < length (fs @ [f])" using j by simp
      show "gesture_start_time (next_state r) = Some (snd ((fs @ [f]) ! j))"
        using j g by (simp add: hold(5) nth_append)
      show "\<not> verdict ((rs @ [r]) ! (j - 1))"
        using j p len by (simp add: nth_append less_imp_diff_less)
      fix i assume "j \<le> i \<and> i < length (fs @ [f])"
      then show "verdict ((rs @ [r]) ! i)"
        using v len hold(7) by (cases "i < ?n") (auto simp: nth_append)
    qed
    have c: "\<forall>k < length (fs @ [f]). emitted ((rs @ [r]) ! k) \<longrightarrow>
         (\<exists>j. held (rs @ [r]) j k \<and>
              LOCK_HOLD_SECONDS \<le> snd ((fs @ [f]) ! k) - snd ((fs @ [f]) ! j))"
      using len i6 hold(6) by (intro emitted_step) auto
    show ?thesis
      unfolding hold_inv_def using a c hold(2) by (simp add: hold(5))
  next
    case reset
    have c: "\<forall>k < length (fs @ [f]). emitted ((rs @ [r]) ! k) \<longrightarrow>
         (\<exists>j. held (rs @ [r]) j k \<and>
              LOCK_HOLD_SECONDS \<le> snd ((fs @ [f]) ! k) - snd ((fs @ [f]) ! j))"
      using len i6 reset(3) by (intro emitted_step) auto
    show ?thesis
      unfolding hold_inv_def using c len reset(4) by (simp add: reset(2) nth_append)
  qed
qed

lemma run_invariant:
  assumes "frame_history s0 = []" and "\<not> last_gesture_state s0"
  shows "\<exists>s rs. observe_all s0 fs = Some (s, rs) \<and> window_inv fs s rs \<and> hold_inv fs s rs"
proof (induction fs rule: rev_induct)
  case Nil
  show ?case using assms by (simp add: window_inv_def hold_inv_def)
next
  case (snoc f fs)
  then obtain s rs where run: "observe_all s0 fs = Some (s, rs)"
    and w: "window_inv fs s rs" and h: "hold_inv fs s rs" by blast
  from h have "last_gesture_state s \<Longrightarrow> gesture_start_time s \<noteq> None"
    by (auto simp: hold_inv_def)
  then obtain r where obs: "observe s f = Some r"
    using observe_total by blast
  from w have len: "length rs = length fs" by (simp add: window_inv_def)
  have "observe_all s0 (fs @ [f]) = Some (next_state r, rs @ [r])"
    by (simp add: observe_all_snoc run obs)
  moreover have "window_inv (fs @ [f]) (next_state r) (rs @ [r])"
    using w obs by (rule window_inv_step)
  moreover have "hold_inv (fs @ [f]) (next_state r) (rs @ [r])"
    using h len obs by (rule hold_inv_step)
  ultimately show ?case by blast
qed

lemma run_results_eq:
  "observe_all stabilizer_init fs = Some (s, rs) \<Longrightarrow> run_results fs = rs"
  by (simp add: run_results_def)

lemma push_frame_evicts_oldest:
  "push_frame h g = (if length h < GESTURE_FRAME_WINDOW then h @ [g] else tl h @ [g])"
  by (cases h) (auto simp: push_frame_def Let_def GESTURE_FRAME_WINDOW_def)

text \<open>
  C9. The stability window never holds more than \<open>GESTURE_FRAME_WINDOW\<close> entries: a run
  from the initial locals never raises, and after every pass the window has at most that
  many entries. A pass appends the new signal and, when the window was full, drops its
  head, the oldest entry, keeping the order of the rest.
\<close>

theorem window_never_exceeds_capacity:
  "observe_all stabilizer_init fs \<noteq> None
   \<and> length (run_results fs) = length fs
   \<and> list_all (\<lambda>r. length (frame_history (next_state r)) \<le> GESTURE_FRAME_WINDOW)
        (run_results fs)
   \<and> push_frame h g = (if length h < GESTURE_FRAME_WINDOW then h @ [g] else tl h @ [g])
   \<and> length (push_frame h g) \<le> max GESTURE_FRAME_WINDOW (length h)"
proof -
  obtain s rs where run: "observe_all stabilizer_init fs = Some (s, rs)"
    and w: "window_inv fs s rs"
    using run_invariant [of stabilizer_init fs] by (auto simp: stabilizer_init_def)
  have "length (push_frame h g) \<le> max GESTURE_FRAME_WINDOW (length h)"
    by (auto simp: push_frame_def Let_def)
  with run w show ?thesis
    by (simp add: run_results_eq window_inv_def push_frame_evicts_oldest)
qed

theorem window_never_exceeds_capacity_witness:
  "length (run_results [(True, 0), (False, 1), (True, 2)]) = 3
   \<and> push_frame [True, True, True, True, True, False, True, True, True, True] False
        = [True, True, True, True, False, True, True, True, True, False]"
proof -
  from window_never_exceeds_capacity
    [of "[(True, 0), (False, 1), (True, 2)]"
        "[True, True, True, True, True, False, True, True, True, True]" False]
  have a: "length (run_results [(True, 0), (False, 1), (True, 2)])
             = length [(True, 0 :: real), (False, 1), (True, 2)]"
    and b: "push_frame [True, True, True, True, True, False, True, True, True, True] False =
        (if length [True, True, True, True, True, False, True, True, True, True]
              < GESTURE_FRAME_WINDOW
         then [True, True, True, True, True, False, True, True, True, True] @ [False]
         else tl [True, True, True, True, True, False, True, True, True, True] @ [False])"
    by blast+
  from a b show ?thesis by (simp add: GESTURE_FRAME_WINDOW_def)
qed

text \<open>
  C1. In a run from the initial locals, over any sequence of frames, an event is emitted
  on pass \<open>k\<close> only if there is an earlier pass \<open>j\<close> at which the verdict became true
  (false on pass \<open>j - 1\<close>), the verdict was true on every pass from \<open>j\<close> to \<open>k\<close>, the
  clock readings of passes \<open>j\<close> and \<open>k\<close> are at least \<open>LOCK_HOLD_SECONDS\<close> apart, and on
  each of these passes at least seven tenths of the window size, rounded up, of the last
  at most \<open>GESTURE_FRAME_WINDOW\<close> observed frames were true. The run itself never raises.
\<close>

theorem gesture_needs_sustained_majority:
  assumes "k < length fs" and "emitted (run_results fs ! k)"
  shows "observe_all stabilizer_init fs \<noteq> None
       \<and> length (run_results fs) = length fs
       \<and> (\<exists>j. held (run_results fs) j k
              \<and> LOCK_HOLD_SECONDS \<le> snd (fs ! k) - snd (fs ! j)
              \<and> (\<forall>i \<in> {j..k}. spec_threshold \<le> votes (trailing fs i)))"
proof -
  obtain s rs where run: "observe_all stabilizer_init fs = Some (s, rs)"
    and w: "window_inv fs s rs" and h: "hold_inv fs s rs"
    using run_invariant [of stabilizer_init fs] by (auto simp: stabilizer_init_def)
  have rr: "run_results fs = rs" using run by (rule run_results_eq)
  from h assms rr obtain j where j: "held rs j k"
    and t: "LOCK_HOLD_SECONDS \<le> snd (fs ! k) - snd (fs ! j)"
    by (auto simp: hold_inv_def)
  have "\<forall>i \<in> {j..k}. spec_threshold \<le> votes (trailing fs i)"
  proof
    fix i assume i: "i \<in> {j..k}"
    with j have "verdict (rs ! i)" by (simp add: held_def)
    moreover from i assms(1) have "i < length fs" by simp
    ultimately show "spec_threshold \<le> votes (trailing fs i)"
      using w by (simp add: window_inv_def)
  qed
  with j t run w rr show ?thesis by (auto simp: window_inv_def)
qed

theorem gesture_needs_sustained_majority_witness:
  "emitted (run_results [(True, 0), (True, 1), (True, 2), (True, 3), (True, 4), (True, 5),
                         (True, 6), (True, 7)] ! 7)
   \<and> (\<exists>j. 0 < j \<and> j < 7
          \<and> verdict (run_results [(True, 0), (True, 1), (True, 2), (True, 3), (True, 4),
                                  (True, 5), (True, 6), (True, 7)] ! j)
          \<and> LOCK_HOLD_SECONDS \<le>
              snd ([(True, 0), (True, 1), (True, 2), (True, 3), (True, 4), (True, 5),
                    (True, 6), (True, 7 :: real)] ! 7) -
              snd ([(True, 0), (True, 1), (True, 2), (True, 3), (True, 4), (True, 5),
                    (True, 6), (True, 7 :: real)] ! j))"
proof -
  let ?fs = "[(True, 0), (True, 1), (True, 2), (True, 3), (True, 4), (True, 5),
              (True, 6), (True, 7 :: real)]"
  have k: "7 < length ?fs" by simp
  have e: "emitted (run_results ?fs ! 7)" by code_simp
  from gesture_needs_sustained_majority [OF k e]
  obtain j where h: "held (run_results ?fs) j 7"
    and t: "LOCK_HOLD_SECONDS \<le> snd (?fs ! 7) - snd (?fs ! j)"
    by blast
  from h have "0 < j" "j < 7" "verdict (run_results ?fs ! j)"
    by (simp_all add: held_def)
  with e t show ?thesis by blast
qed

lemma trailing_votes: "votes (trailing gs k) \<le> votes (map fst (take (Suc k) gs))"
  by (simp add: trailing_def Let_def votes_suffix suffix_drop)

text \<open>
  C2. Right after a pass that emits an event the window is empty and no hold is in
  progress. Whatever frames follow, the stabilizer keeps running, and a later event can
  only be emitted on a pass by which at least seven tenths of the window size, rounded
  up, of the frames seen since the emission (among the last \<open>GESTURE_FRAME_WINDOW\<close> of
  them) were true.
\<close>

theorem window_empty_after_gesture:
  assumes "observe s f = Some r" and "emitted r"
  shows "frame_history (next_state r) = []
       \<and> \<not> last_gesture_state (next_state r)
       \<and> observe_all (next_state r) gs \<noteq> None
       \<and> (\<forall>s' rs' k. observe_all (next_state r) gs = Some (s', rs') \<and> k < length gs
                       \<and> emitted (rs' ! k) \<longrightarrow>
             spec_threshold \<le> votes (trailing gs k)
             \<and> spec_threshold \<le> votes (map fst (take (Suc k) gs)))"
proof -
  from assms have e: "frame_history (next_state r) = []" "\<not> last_gesture_state (next_state r)"
    by (auto elim: observe_cases)
  obtain s1 rs1 where run: "observe_all (next_state r) gs = Some (s1, rs1)"
    and w: "window_inv gs s1 rs1" and h: "hold_inv gs s1 rs1"
    using run_invariant [OF e, of gs] by blast
  have "spec_threshold \<le> votes (trailing gs k)
        \<and> spec_threshold \<le> votes (map fst (take (Suc k) gs))"
    if "k < length gs" and "emitted (rs1 ! k)" for k
  proof -
    from h that obtain j where "held rs1 j k" by (auto simp: hold_inv_def)
    then have "verdict (rs1 ! k)" by (simp add: held_def)
    with w that(1) have "spec_threshold \<le> votes (trailing gs k)"
      by (simp add: window_inv_def)
    then show ?thesis using trailing_votes [of gs k] by simp
  qed
  with e run show ?thesis by auto
qed

theorem window_empty_after_gesture_witness:
  "observe \<lparr>frame_history = [True, True, True, True, True, True, True],
            gesture_start_time = Some 6, last_gesture_state = True\<rparr> (True, 7)
     = Some \<lparr>next_state = \<lparr>frame_history = [], gesture_start_time = Some 6,
                             last_gesture_state = False\<rparr>,
             emitted = True, verdict = True\<rparr>
   \<and> spec_threshold \<le> votes (trailing
        [(True, 8), (True, 9), (True, 10), (True, 11), (True, 12), (True, 13), (True, 14),
         (True, 15 :: real)] 7)"
proof -
  let ?s = "\<lparr>frame_history = [True, True, True, True, True, True, True],
            gesture_start_time = Some 6, last_gesture_state = True\<rparr>"
  let ?n = "\<lparr>frame_history = [], gesture_start_time = Some 6, last_gesture_state = False\<rparr>"
  let ?r = "\<lparr>next_state = ?n, emitted = True, verdict = True\<rparr>"
  let ?gs = "[(True, 8), (True, 9), (True, 10), (True, 11), (True, 12), (True, 13),
              (True, 14), (True, 15 :: real)]"
  have o: "observe ?s (True, 7) = Some ?r" by code_simp
  have e: "emitted ?r" by simp
  note t = window_empty_after_gesture [OF o e, of ?gs]
  have c: "emitted (snd (the (observe_all (next_state ?r) ?gs)) ! 7)"
    by code_simp
  from t obtain s' rs' where run: "observe_all (next_state ?r) ?gs = Some (s', rs')"
    by fastforce
  with c have e2: "emitted (rs' ! 7)" by simp
  have k: "7 < length ?gs" by simp
  from t run k e2
  have "spec_threshold \<le> votes (trailing ?gs 7)" by blast
  with o show ?thesis by blast
qed

section \<open>Text\<close>

lemma lower_ascii_lowering: "ascii_lowering lower_ascii"
  by (simp add: ascii_lowering_def lower_ascii_def)

lemma ascii_lowering_is_ascii:
  assumes "ascii_lowering lower" and "is_ascii t"
  shows "lower t = lower_ascii t"
  using assms by (simp add: ascii_lowering_def lower_ascii_def)

section \<open>Voice listener\<close>









section \<open>Lock controller\<close>

lemma accepted_not_suppressed:
  "countdown n @ platform_lock lower env @
     [Print ''System locked. Exiting program...'', Speak ''System locked. Exiting.'']
   \<noteq> [Print ''Lock suppressed (debounce).'']"
proof
  assume "countdown n @ platform_lock lower env @
     [Print ''System locked. Exiting program...'', Speak ''System locked. Exiting.'']
   = [Print ''Lock suppressed (debounce).'']"
  then have "length (countdown n @ platform_lock lower env @
     [Print ''System locked. Exiting program...'', Speak ''System locked. Exiting.'']) = 1"
    by simp
  then show False by simp
qed

text \<open>
  C3. When the controller accepts an event at time \<open>t1\<close> (at least \<open>DEBOUNCE_SECONDS\<close>
  after \<^verbatim>\<open>last_lock_time\<close>) it runs the countdown and the platform lock once and ends in
  \<^verbatim>\<open>sys.exit(0)\<close>, with \<^verbatim>\<open>last_lock_time\<close> set to \<open>t1\<close>. A second event handled less than
  \<open>DEBOUNCE_SECONDS\<close> after the first, in the state the first call left, only prints
  \<^verbatim>\<open>Lock suppressed (debounce).\<close> and returns: no lock command is run. The debounce test
  is the only way an event is discarded: a call prints only the suppression line exactly
  when \<^verbatim>\<open>now - last_lock_time < DEBOUNCE_SECONDS\<close>.
\<close>

theorem debounce_second_event_dropped:
  assumes "DEBOUNCE_SECONDS \<le> t1 - t0" and "t2 - t1 < DEBOUNCE_SECONDS"
  shows "lock_workstation lower env t0 t1 =
           \<lparr>last_lock_time' = t1,
            lock_effects = countdown CONFIRM_COUNTDOWN @ platform_lock lower env @
              [Print ''System locked. Exiting program...'', Speak ''System locked. Exiting.''],
            lock_completion = SystemExit 0\<rparr>
       \<and> lock_workstation lower env (last_lock_time' (lock_workstation lower env t0 t1)) t2 =
           \<lparr>last_lock_time' = t1,
            lock_effects = [Print ''Lock suppressed (debounce).''],
            lock_completion = Returns\<rparr>
       \<and> (lock_effects (lock_workstation lower env t now) = [Print ''Lock suppressed (debounce).''])
           = (now - t < DEBOUNCE_SECONDS)"
proof (intro conjI)
  show first: "lock_workstation lower env t0 t1 =
           \<lparr>last_lock_time' = t1,
            lock_effects = countdown CONFIRM_COUNTDOWN @ platform_lock lower env @
              [Print ''System locked. Exiting program...'', Speak ''System locked. Exiting.''],
            lock_completion = SystemExit 0\<rparr>"
    using assms(1) by (simp add: lock_workstation_def CONFIRM_COUNTDOWN_def)
  show "lock_workstation lower env (last_lock_time' (lock_workstation lower env t0 t1)) t2 =
           \<lparr>last_lock_time' = t1,
            lock_effects = [Print ''Lock suppressed (debounce).''],
            lock_completion = Returns\<rparr>"
    using assms(2) by (simp add: first) (simp add: lock_workstation_def)
  show "(lock_effects (lock_workstation lower env t now) = [Print ''Lock suppressed (debounce).''])
           = (now - t < DEBOUNCE_SECONDS)"
    using accepted_not_suppressed [of CONFIRM_COUNTDOWN lower env]
    by (simp add: lock_workstation_def CONFIRM_COUNTDOWN_def)
qed

theorem debounce_second_event_dropped_witness:
  "DEBOUNCE_SECONDS \<le> 1000 - 0 \<and> (1001::real) - 1000 < DEBOUNCE_SECONDS \<and>
   lock_effects (lock_workstation lower_ascii
     \<lparr>platform_system = ustr ''Linux'', LockWorkStation = Raises, loginctl = Succeeds,
      gnome_screensaver_command = Raises, xdg_screensaver = Raises, osascript = Raises\<rparr>
     0 1000) =
     [Speak ''Locking in 3'', Sleep 1, Speak ''Locking in 2'', Sleep 1,
      Speak ''Locking in 1'', Sleep 1, Run ''loginctl'',
      Print ''System locked. Exiting program...'', Speak ''System locked. Exiting.''] \<and>
   lock_completion (lock_workstation lower_ascii
     \<lparr>platform_system = ustr ''Linux'', LockWorkStation = Raises, loginctl = Succeeds,
      gnome_screensaver_command = Raises, xdg_screensaver = Raises, osascript = Raises\<rparr>
     0 1000) = SystemExit 0 \<and>
   lock_workstation lower_ascii
     \<lparr>platform_system = ustr ''Linux'', LockWorkStation = Raises, loginctl = Succeeds,
      gnome_screensaver_command = Raises, xdg_screensaver = Raises, osascript = Raises\<rparr>
     1000 1001 =
     \<lparr>last_lock_time' = 1000,
      lock_effects = [Print ''Lock suppressed (debounce).''],
      lock_completion = Returns\<rparr>"
proof -
  let ?env = "\<lparr>platform_system = ustr ''Linux'', LockWorkStation = Raises, loginctl = Succeeds,
      gnome_screensaver_command = Raises, xdg_screensaver = Raises, osascript = Raises\<rparr>"
  have h1: "DEBOUNCE_SECONDS \<le> 1000 - 0" and h2: "(1001::real) - 1000 < DEBOUNCE_SECONDS"
    by (simp_all add: DEBOUNCE_SECONDS_def)
  have c: "countdown CONFIRM_COUNTDOWN @ platform_lock lower_ascii ?env @
      [Print ''System locked. Exiting program...'', Speak ''System locked. Exiting.''] =
     [Speak ''Locking in 3'', Sleep 1, Speak ''Locking in 2'', Sleep 1,
      Speak ''Locking in 1'', Sleep 1, Run ''loginctl'',
      Print ''System locked. Exiting program...'', Speak ''System locked. Exiting.'']"
    by code_simp
  note t = debounce_second_event_dropped [OF h1 h2, of lower_ascii ?env 0 0]
  from t have first: "lock_workstation lower_ascii ?env 0 1000 =
           \<lparr>last_lock_time' = 1000,
            lock_effects = countdown CONFIRM_COUNTDOWN @ platform_lock lower_ascii ?env @
              [Print ''System locked. Exiting program...'', Speak ''System locked. Exiting.''],
            lock_completion = SystemExit 0\<rparr>"
    by blast
  from t have second: "lock_workstation lower_ascii ?env (last_lock_time' (lock_workstation lower_ascii ?env 0 1000)) 1001 =
           \<lparr>last_lock_time' = 1000,
            lock_effects = [Print ''Lock suppressed (debounce).''],
            lock_completion = Returns\<rparr>"
    by blast
  have l: "last_lock_time' (lock_workstation lower_ascii ?env 0 1000) = 1000"
    by (simp only: first lock_result.simps)
  have e: "lock_effects (lock_workstation lower_ascii ?env 0 1000) =
     [Speak ''Locking in 3'', Sleep 1, Speak ''Locking in 2'', Sleep 1,
      Speak ''Locking in 1'', Sleep 1, Run ''loginctl'',
      Print ''System locked. Exiting program...'', Speak ''System locked. Exiting.'']"
    by (simp only: first lock_result.simps c)
  have x: "lock_completion (lock_workstation lower_ascii ?env 0 1000) = SystemExit 0"
    by (simp only: first lock_result.simps)
  from second have s: "lock_workstation lower_ascii ?env 1000 1001 =
           \<lparr>last_lock_time' = 1000,
            lock_effects = [Print ''Lock suppressed (debounce).''],
            lock_completion = Returns\<rparr>"
    by (simp only: l)
  show ?thesis
    using h1 h2 e x s by blast
qed

text \<open>
  C10. A call of the controller within \<open>DEBOUNCE_SECONDS\<close> of \<^verbatim>\<open>last_lock_time\<close> returns
  with everything as it was: \<^verbatim>\<open>last_lock_time\<close> keeps its value, the only effect is the
  printed suppression line (no countdown, no speech, no sleep, no lock command), and the
  call returns instead of exiting.
\<close>

theorem debounce_drop_leaves_state:
  assumes "now - t0 < DEBOUNCE_SECONDS"
  shows "lock_workstation lower env t0 now =
           \<lparr>last_lock_time' = t0,
            lock_effects = [Print ''Lock suppressed (debounce).''],
            lock_completion = Returns\<rparr>"
  using assms by (simp add: lock_workstation_def)

theorem debounce_drop_leaves_state_witness:
  "(101::real) - 100 < DEBOUNCE_SECONDS \<and>
   lock_workstation lower_ascii
     \<lparr>platform_system = ustr ''Linux'', LockWorkStation = Raises, loginctl = Succeeds,
      gnome_screensaver_command = Raises, xdg_screensaver = Raises, osascript = Raises\<rparr>
     100 101 =
     \<lparr>last_lock_time' = 100,
      lock_effects = [Print ''Lock suppressed (debounce).''],
      lock_completion = Returns\<rparr>"
proof -
  have h: "(101::real) - 100 < DEBOUNCE_SECONDS"
    by (simp add: DEBOUNCE_SECONDS_def)
  show ?thesis
    using h debounce_drop_leaves_state [OF h, of lower_ascii] by blast
qed

section \<open>Control socket\<close>

lemma control_pass_cong:
  "lower (strip raw) = lower' (strip raw) \<Longrightarrow> received io = Some raw \<Longrightarrow>
   control_pass lower io = control_pass lower' io"
  by (simp add: control_pass_def Let_def)

text \<open>
  C8, as the claim states it: every command that reads \<^verbatim>\<open>stop\<close> after trimming and
  lowercasing is answered with \<^verbatim>\<open>stopping\<close>, the connection is closed and the process
  ends. When \<^verbatim>\<open>conn.send\<close> raises (the peer has gone), the handler
  \<^verbatim>\<open>except Exception: pass\<close> swallows the exception: no reply is sent, the connection is
  not closed, and the thread goes on listening.
\<close>

theorem stop_unanswered_when_send_raises:
  "lower_ascii (strip (ustr ''stop'')) = ustr ''stop''
   \<and> control_pass lower_ascii
        \<lparr>received = Some (ustr ''stop''), send_r = Raises, close_r = Succeeds\<rparr> = ([], None)"
  by code_simp

text \<open>
  C8, amended. For a command received on the control socket whose reply is sent and
  whose connection is closed without an exception: when the text, stripped of
  surrounding whitespace and lowercased, is \<^verbatim>\<open>stop\<close>, the thread replies \<^verbatim>\<open>stopping\<close>,
  closes the connection, prints a line and ends the process with status zero; for any
  other text it replies \<^verbatim>\<open>unknown\<close>, closes the connection and goes on listening, with
  no other effect. When \<^verbatim>\<open>conn.send\<close> raises, nothing is sent or closed and the thread
  goes on listening; when \<^verbatim>\<open>conn.close\<close> raises, the reply has been sent and the thread
  goes on listening; in both cases the process keeps running whatever the command was.
  The whitespace that is trimmed is that of \<^verbatim>\<open>str.strip\<close>, which includes the no-break
  space, and on ASCII text the comparison ignores the case of the letters.
\<close>

theorem control_commands:
  assumes "received io = Some raw"
  shows "(send_r io = Succeeds \<and> close_r io = Succeeds \<longrightarrow>
            control_pass lower io =
              (if lower (strip raw) = ustr ''stop'' then
                 ([Send ''stopping'', Close, Print ''Stop command received, exiting.''],
                  Some (OsExit 0))
               else ([Send ''unknown'', Close], None)))
       \<and> (send_r io = Raises \<longrightarrow> control_pass lower io = ([], None))
       \<and> (send_r io = Succeeds \<and> close_r io = Raises \<longrightarrow>
            control_pass lower io =
              ([Send (if lower (strip raw) = ustr ''stop'' then ''stopping'' else ''unknown'')],
               None))
       \<and> exit_status (OsExit 0) = 0
       \<and> (ascii_lowering lower \<longrightarrow>
            (is_ascii (strip raw) \<longrightarrow>
               (lower (strip raw) = ustr ''stop'') =
               (map ascii_lower_char (strip raw) = ustr ''stop''))
          \<and> lower (strip (ustr '' StOp '' @ [0xA0, 0x0A])) = ustr ''stop''
          \<and> lower (strip (ustr ''stop it'')) \<noteq> ustr ''stop'')"
proof (intro conjI impI)
  assume "send_r io = Succeeds \<and> close_r io = Succeeds"
  with assms show "control_pass lower io =
              (if lower (strip raw) = ustr ''stop'' then
                 ([Send ''stopping'', Close, Print ''Stop command received, exiting.''],
                  Some (OsExit 0))
               else ([Send ''unknown'', Close], None))"
    by (simp add: control_pass_def Let_def)
next
  assume "send_r io = Raises"
  with assms show "control_pass lower io = ([], None)"
    by (simp add: control_pass_def Let_def)
next
  assume "send_r io = Succeeds \<and> close_r io = Raises"
  with assms show "control_pass lower io =
              ([Send (if lower (strip raw) = ustr ''stop'' then ''stopping'' else ''unknown'')],
               None)"
    by (simp add: control_pass_def Let_def)
next
  show "exit_status (OsExit 0) = 0"
    by simp
next
  assume "ascii_lowering lower" and "is_ascii (strip raw)"
  then show "(lower (strip raw) = ustr ''stop'') =
               (map ascii_lower_char (strip raw) = ustr ''stop'')"
    by (simp add: ascii_lowering_def)
next
  assume l: "ascii_lowering lower"
  have s: "strip (ustr '' StOp '' @ [0xA0, 0x0A]) = ustr ''StOp''"
    by code_simp
  have "is_ascii (ustr ''StOp'')"
    by code_simp
  with l have "lower (ustr ''StOp'') = lower_ascii (ustr ''StOp'')"
    by (rule ascii_lowering_is_ascii)
  also have "\<dots> = ustr ''stop''"
    by code_simp
  finally show "lower (strip (ustr '' StOp '' @ [0xA0, 0x0A])) = ustr ''stop''"
    by (simp only: s)
next
  assume l: "ascii_lowering lower"
  have s: "strip (ustr ''stop it'') = ustr ''stop it''"
    by code_simp
  have "is_ascii (ustr ''stop it'')"
    by code_simp
  with l have "lower (ustr ''stop it'') = lower_ascii (ustr ''stop it'')"
    by (rule ascii_lowering_is_ascii)
  moreover have "lower_ascii (ustr ''stop it'') \<noteq> ustr ''stop''"
    by code_simp
  ultimately show "lower (strip (ustr ''stop it'')) \<noteq> ustr ''stop''"
    by (simp only: s simp_thms)
qed

theorem control_commands_witness:
  "control_pass lower_ascii
     \<lparr>received = Some (ustr '' StOp '' @ [0xA0, 0x0A]), send_r = Succeeds, close_r = Succeeds\<rparr> =
     ([Send ''stopping'', Close, Print ''Stop command received, exiting.''], Some (OsExit 0))
   \<and> control_pass lower_ascii
       \<lparr>received = Some (ustr ''status''), send_r = Succeeds, close_r = Succeeds\<rparr> =
       ([Send ''unknown'', Close], None)
   \<and> control_pass lower_ascii
       \<lparr>received = Some (ustr ''stop''), send_r = Raises, close_r = Succeeds\<rparr> = ([], None)
   \<and> control_pass lower_ascii
       \<lparr>received = Some (ustr ''stop''), send_r = Succeeds, close_r = Raises\<rparr> =
       ([Send ''stopping''], None)"
proof -
  let ?raw = "ustr '' StOp '' @ [0xA0, 0x0A]"
  let ?io1 = "\<lparr>received = Some ?raw, send_r = Succeeds, close_r = Succeeds\<rparr>"
  let ?io2 = "\<lparr>received = Some (ustr ''status''), send_r = Succeeds, close_r = Succeeds\<rparr>"
  let ?io3 = "\<lparr>received = Some (ustr ''stop''), send_r = Raises, close_r = Succeeds\<rparr>"
  let ?io4 = "\<lparr>received = Some (ustr ''stop''), send_r = Succeeds, close_r = Raises\<rparr>"
  have a: "ascii_lowering lower_ascii"
    by (rule lower_ascii_lowering)
  have r1: "received ?io1 = Some ?raw" and ok1: "send_r ?io1 = Succeeds \<and> close_r ?io1 = Succeeds"
    by (simp_all only: control_io.simps simp_thms)
  note t1 = control_commands [OF r1, of lower_ascii]
  from t1 a have l1: "lower_ascii (strip ?raw) = ustr ''stop''"
    by blast
  from t1 ok1 have "control_pass lower_ascii ?io1 =
              (if lower_ascii (strip ?raw) = ustr ''stop'' then
                 ([Send ''stopping'', Close, Print ''Stop command received, exiting.''],
                  Some (OsExit 0))
               else ([Send ''unknown'', Close], None))"
    by blast
  then have c1: "control_pass lower_ascii ?io1 =
     ([Send ''stopping'', Close, Print ''Stop command received, exiting.''], Some (OsExit 0))"
    by (simp only: l1 simp_thms if_True)
  have r2: "received ?io2 = Some (ustr ''status'')"
    and ok2: "send_r ?io2 = Succeeds \<and> close_r ?io2 = Succeeds"
    by (simp_all only: control_io.simps simp_thms)
  have l2: "lower_ascii (strip (ustr ''status'')) \<noteq> ustr ''stop''"
    by code_simp
  from control_commands [OF r2, of lower_ascii] ok2
  have "control_pass lower_ascii ?io2 =
              (if lower_ascii (strip (ustr ''status'')) = ustr ''stop'' then
                 ([Send ''stopping'', Close, Print ''Stop command received, exiting.''],
                  Some (OsExit 0))
               else ([Send ''unknown'', Close], None))"
    by blast
  then have c2: "control_pass lower_ascii ?io2 = ([Send ''unknown'', Close], None)"
    using l2 by (simp only: simp_thms if_False)
  have r3: "received ?io3 = Some (ustr ''stop'')" and x3: "send_r ?io3 = Raises"
    by (simp_all only: control_io.simps)
  from control_commands [OF r3, of lower_ascii] x3
  have c3: "control_pass lower_ascii ?io3 = ([], None)"
    by blast
  have r4: "received ?io4 = Some (ustr ''stop'')"
    and x4: "send_r ?io4 = Succeeds \<and> close_r ?io4 = Raises"
    by (simp_all only: control_io.simps simp_thms)
  have l4: "lower_ascii (strip (ustr ''stop'')) = ustr ''stop''"
    by code_simp
  from control_commands [OF r4, of lower_ascii] x4
  have "control_pass lower_ascii ?io4 =
              ([Send (if lower_ascii (strip (ustr ''stop'')) = ustr ''stop'' then ''stopping''
                      else ''unknown'')], None)"
    by blast
  then have c4: "control_pass lower_ascii ?io4 = ([Send ''stopping''], None)"
    by (simp only: l4 simp_thms if_True)
  show ?thesis
    using c1 c2 c3 c4 by blast
qed

section \<open>Exit status of the process\<close>

lemma observe_keeps_start:
  assumes "observe s f = Some r" and "last_gesture_state (next_state r)"
  shows "gesture_start_time (next_state r) \<noteq> None"
  using assms by (auto elim!: observe_cases)

lemma lock_completion_cases:
  "lock_completion (lock_workstation lower env t0 now) = Returns
   \<or> lock_completion (lock_workstation lower env t0 now) = SystemExit 0"
  by (simp add: lock_workstation_def)

lemma main_loop_exit_status:
  assumes "last_gesture_state (stab s) \<longrightarrow> gesture_start_time (stab s) \<noteq> None"
    and "completion (main_loop lower env s ts) = Some c"
  shows "exit_status c = 0"
  using assms
proof (induction ts arbitrary: s)
  case Nil
  then show ?case by simp
next
  case (Cons t ts)
  show ?case
  proof (cases "ret t")
    case False
    with Cons.prems(2) show ?thesis by simp
  next
    case True
    from Cons.prems(1) obtain r where obs: "observe (stab s) (gesture_detected t, frame_clock t) = Some r"
      using observe_total [of "stab s"] by blast
    have keep: "last_gesture_state (next_state r) \<longrightarrow> gesture_start_time (next_state r) \<noteq> None"
      using observe_keeps_start [OF obs] by blast
    let ?q1 = "action_q s @ voice_actions t @ (if emitted r then [(''gesture'', ustr ''fist'')] else [])"
    show ?thesis
    proof (cases ?q1)
      case Nil
      show ?thesis
      proof (cases "key_q t")
        case True
        with Cons.prems(2) \<open>ret t\<close> obs Nil show ?thesis
          by (simp add: Let_def)
      next
        case False
        let ?s1 = "s\<lparr>stab := next_state r, action_q := []\<rparr>"
        from Cons.prems(2) \<open>ret t\<close> obs Nil False
        have "completion (main_loop lower env ?s1 ts) = Some c"
          by (simp add: Let_def)
        moreover have "last_gesture_state (stab ?s1) \<longrightarrow> gesture_start_time (stab ?s1) \<noteq> None"
          using keep by simp
        ultimately show ?thesis by (rule Cons.IH [rotated])
      qed
    next
      case (Cons a q2)
      obtain src payload where a: "a = (src, payload)" by (cases a)
      let ?l = "lock_workstation lower env (last_lock_time s) (lock_clock t)"
      let ?s1 = "\<lparr>stab = next_state r, action_q = q2, last_lock_time = last_lock_time' ?l\<rparr>"
      show ?thesis
      proof (cases "lock_completion ?l = Returns")
        case False
        with lock_completion_cases [of lower env "last_lock_time s" "lock_clock t"]
        have x: "lock_completion ?l = SystemExit 0" by blast
        from Cons.prems(2) \<open>ret t\<close> obs Cons a x
        have "c = SystemExit 0" by (simp add: Let_def)
        then show ?thesis by simp
      next
        case True
        note ret = True
        show ?thesis
        proof (cases "key_q t")
          case True
          with Cons.prems(2) \<open>ret t\<close> obs Cons a ret show ?thesis
            by (simp add: Let_def)
        next
          case False
          from Cons.prems(2) \<open>ret t\<close> obs Cons a ret False
          have "completion (main_loop lower env ?s1 ts) = Some c"
            by (simp add: Let_def)
          moreover have "last_gesture_state (stab ?s1) \<longrightarrow> gesture_start_time (stab ?s1) \<noteq> None"
            using keep by simp
          ultimately show ?thesis by (rule Cons.IH [rotated])
        qed
      qed
    qed
  qed
qed

lemma main_exit_status:
  assumes "completion (main lower isOpened env ts) = Some c"
  shows "exit_status c = 0"
proof (cases isOpened)
  case False
  with assms show ?thesis by (auto simp: main_def)
next
  case True
  have i: "last_gesture_state (stab main_init) \<longrightarrow> gesture_start_time (stab main_init) \<noteq> None"
    by (simp add: main_init_def stabilizer_init_def)
  from assms True have "completion (main_loop lower env main_init ts) = Some c"
    by (simp add: main_def Let_def split: if_splits)
  with i show ?thesis by (rule main_loop_exit_status)
qed

text \<open>
  C4, as the claim states it: a non-zero exit code occurs when the camera is unavailable
  at startup. The code prints \<^verbatim>\<open>Cannot open camera\<close> and returns from \<^verbatim>\<open>main\<close>, so the
  script runs to its end and the exit status is zero.
\<close>

theorem camera_unavailable_exits_zero:
  "\<not> exit_status (the (completion (main lower_ascii False
        \<lparr>platform_system = ustr ''Linux'', LockWorkStation = Raises, loginctl = Succeeds,
         gnome_screensaver_command = Raises, xdg_screensaver = Raises, osascript = Raises\<rparr>
        []))) \<noteq> 0"
  by (simp add: main_def)

text \<open>
  C4, amended. Every way the camera loop's thread ends gives exit status zero: the lock
  and exit, whatever the lock commands did, a failed frame read, the quit key, and also
  a camera that cannot be opened, where \<^verbatim>\<open>main\<close> prints a line and returns. The refusal of
  a second instance ends in \<^verbatim>\<open>sys.exit(0)\<close> and the remote stop in \<^verbatim>\<open>os._exit(0)\<close>. None of
  these paths gives a non-zero status.
\<close>

theorem exit_status_always_zero:
  "(completion (main lower isOpened env ts) = Some c \<longrightarrow> exit_status c = 0)
   \<and> completion (main lower False env ts) = Some Returns
   \<and> effects (main lower False env ts) = [Print ''Cannot open camera'']
   \<and> (DEBOUNCE_SECONDS \<le> now - t0 \<longrightarrow>
        lock_completion (lock_workstation lower env t0 now) = SystemExit 0)
   \<and> exit_status (SystemExit 0) = 0
   \<and> snd (singleton_startup Raises listen_r) = Some (SystemExit 0)
   \<and> (lower (strip raw) = ustr ''stop'' \<longrightarrow>
        snd (control_pass lower \<lparr>received = Some raw, send_r = Succeeds, close_r = Succeeds\<rparr>)
          = Some (OsExit 0))
   \<and> exit_status (OsExit 0) = 0"
proof (intro conjI impI)
  assume "completion (main lower isOpened env ts) = Some c"
  then show "exit_status c = 0" by (rule main_exit_status)
next
  assume "DEBOUNCE_SECONDS \<le> now - t0"
  then show "lock_completion (lock_workstation lower env t0 now) = SystemExit 0"
    by (simp add: lock_workstation_def)
next
  assume "lower (strip raw) = ustr ''stop''"
  then show "snd (control_pass lower \<lparr>received = Some raw, send_r = Succeeds, close_r = Succeeds\<rparr>)
          = Some (OsExit 0)"
    by (simp add: control_pass_def Let_def)
qed (simp_all add: main_def singleton_startup_def)

theorem exit_status_always_zero_witness:
  "completion (main lower_ascii True
        \<lparr>platform_system = ustr ''Linux'', LockWorkStation = Raises, loginctl = Raises,
         gnome_screensaver_command = Raises, xdg_screensaver = Raises, osascript = Raises\<rparr>
        [\<lparr>ret = True, gesture_detected = False, frame_clock = 1000,
          voice_actions = [(''voice'', ustr ''lock it'')], lock_clock = 1000, key_q = False\<rparr>])
     = Some (SystemExit 0)
   \<and> exit_status (SystemExit 0) = 0
   \<and> lock_completion (lock_workstation lower_ascii
        \<lparr>platform_system = ustr ''Linux'', LockWorkStation = Raises, loginctl = Raises,
         gnome_screensaver_command = Raises, xdg_screensaver = Raises, osascript = Raises\<rparr>
        0 1000) = SystemExit 0
   \<and> snd (control_pass lower_ascii \<lparr>received = Some (ustr ''stop''), send_r = Succeeds, close_r = Succeeds\<rparr>)
          = Some (OsExit 0)"
proof -
  let ?env = "\<lparr>platform_system = ustr ''Linux'', LockWorkStation = Raises, loginctl = Raises,
         gnome_screensaver_command = Raises, xdg_screensaver = Raises, osascript = Raises\<rparr>"
  let ?ts = "[\<lparr>ret = True, gesture_detected = False, frame_clock = 1000,
          voice_actions = [(''voice'', ustr ''lock it'')], lock_clock = 1000, key_q = False\<rparr>]"
  have m: "completion (main lower_ascii True ?env ?ts) = Some (SystemExit 0)"
    by code_simp
  have d: "DEBOUNCE_SECONDS \<le> 1000 - 0"
    by (simp add: DEBOUNCE_SECONDS_def)
  have s: "lower_ascii (strip (ustr ''stop'')) = ustr ''stop''"
    by code_simp
  note t = exit_status_always_zero [of lower_ascii True ?env ?ts "SystemExit 0" 1000 0 Succeeds "ustr ''stop''"]
  from t m have "exit_status (SystemExit 0) = 0" by blast
  moreover from t d have "lock_completion (lock_workstation lower_ascii ?env 0 1000) = SystemExit 0"
    by blast
  moreover from t s
  have "snd (control_pass lower_ascii \<lparr>received = Some (ustr ''stop''), send_r = Succeeds, close_r = Succeeds\<rparr>)
          = Some (OsExit 0)"
    by blast
  ultimately show ?thesis using m by blast
qed

end
